theory Spec2Isabelle
  imports Main
begin

section \<open>C strings and characters\<close>

text \<open>
  A \<open>std::string\<close> is a \<^typ>\<open>string\<close>. The functions of \<open>Detail\<close> work on
  \<open>const char *\<close>, obtained with \<open>c_str()\<close>: the characters before the first NUL. A C
  string is modelled as the list of these characters, the end of the list standing for the
  terminating NUL, which \<open>deref\<close> (the read \<open>*c\<close>) returns there.
\<close>

definition NUL :: char where
  "NUL = CHR 0x00"

definition c_str :: "string \<Rightarrow> string" where
  "c_str s = takeWhile (\<lambda>c. c \<noteq> NUL) s"

fun deref :: "string \<Rightarrow> char" where
  "deref [] = NUL"
| "deref (c # cs) = c"

text \<open>
  \<open>*c1 < *c2\<close> compares two \<open>char\<close>s. The type is signed on the x86 targets of the
  repository, so the bytes from 128 on are negative.
\<close>

definition schar :: "char \<Rightarrow> int" where
  "schar c = (if (of_char c :: nat) < 128 then int (of_char c) else int (of_char c) - 256)"

definition char_less :: "char \<Rightarrow> char \<Rightarrow> bool" where
  "char_less c1 c2 = (schar c1 < schar c2)"

section \<open>The segment matcher\<close>

text \<open>
  \<open>Detail::wildcardMatch( s, pattern )\<close>. The \<open>while( true )\<close> loop with its \<open>switch\<close> is
  the recursion on the pattern: \<open>case '\0'\<close> is the empty pattern, \<open>case '*'\<close> returns
  true when the pattern ends there and otherwise runs the inner loop
  \<open>while( *s != '\0' )\<close>, here \<open>wildcardMatch_loop\<close>, and \<open>default\<close> compares one
  character and goes round again.
\<close>

fun wildcardMatch :: "string \<Rightarrow> string \<Rightarrow> bool"
  and wildcardMatch_loop :: "string \<Rightarrow> string \<Rightarrow> bool" where
  "wildcardMatch s [] = (deref s = NUL)"
| "wildcardMatch s (c # pattern) =
     (if c = CHR ''*'' then
        (if deref pattern = NUL then True else wildcardMatch_loop s pattern)
      else (case s of
              [] \<Rightarrow> False
            | x # s' \<Rightarrow> if c \<noteq> x then False else wildcardMatch s' pattern))"
| "wildcardMatch_loop [] pattern = False"
| "wildcardMatch_loop (x # s') pattern =
     (if wildcardMatch (x # s') pattern then True else wildcardMatch_loop s' pattern)"

section \<open>The ordering of sibling keys\<close>

text \<open>
  \<open>Detail::Less\<close>. \<open>Less_skip\<close> is the loop \<open>while( *c1 == *c2 && *c1 )\<close> that moves both
  pointers over the common prefix; it returns the two pointers.
\<close>

fun Less_skip :: "string \<Rightarrow> string \<Rightarrow> string \<times> string" where
  "Less_skip (x # c1) (y # c2) = (if x = y then Less_skip c1 c2 else (x # c1, y # c2))"
| "Less_skip c1 c2 = (c1, c2)"

definition Less :: "string \<Rightarrow> string \<Rightarrow> bool" where
  "Less s1 s2 =
     (case Less_skip (c_str s1) (c_str s2) of
        (c1, c2) \<Rightarrow>
          if deref c1 = CHR ''*'' \<or> deref c2 = CHR ''*'' then False
          else char_less (deref c1) (deref c2))"

section \<open>Tokenising a path\<close>

text \<open>
  \<open>Tokenizer tokenizer( path, boost::char_separator<char>( "/" ) )\<close>. The token function
  is the separator object that the call builds, a \<open>boost::char_separator<char>\<close> with \<open>/\<close> as
  its dropped delimiter and the defaults for its other two arguments: no kept delimiter, and
  the policy \<open>drop_empty_tokens\<close>. With that policy the function skips the delimiters in
  front, stops when the input ends there, and otherwise takes the characters up to the next
  delimiter. So the tokens are the maximal runs of characters other than \<open>/\<close>, and no
  token is empty.
\<close>

definition is_dropped :: "char \<Rightarrow> bool" where
  "is_dropped c = (c = CHR ''/'')"

function tokenize :: "string \<Rightarrow> string list" where
  "tokenize path =
     (case dropWhile is_dropped path of
        [] \<Rightarrow> []
      | c # rest \<Rightarrow>
          (c # takeWhile (\<lambda>x. \<not> is_dropped x) rest)
            # tokenize (dropWhile (\<lambda>x. \<not> is_dropped x) rest))"
  by pat_completeness auto
termination
proof (relation "measure length")
  show "wf (measure length)" by simp
next
  fix path :: string and c rest
  assume a: "dropWhile is_dropped path = c # rest"
  have "length (dropWhile (\<lambda>x. \<not> is_dropped x) rest) \<le> length rest"
    by (rule length_dropWhile_le)
  moreover have "length (c # rest) \<le> length path"
    using length_dropWhile_le [of is_dropped path] a by simp
  ultimately show "(dropWhile (\<lambda>x. \<not> is_dropped x) rest, path) \<in> measure length"
    by simp
qed

declare tokenize.simps [simp del]

section \<open>The multimap of children\<close>

text \<open>
  \<open>std::multimap<std::string, Node *, Detail::Less>\<close> is a red-black tree: the elements
  in the order of the container are the in-order sequence of the tree, and an iterator is a
  position in that sequence. \<open>insert\<close> goes down from the root, to the left where the new
  key is \<open>Less\<close> than the key of the node and to the right otherwise, hangs the new
  element there as a red leaf, rebalances the tree from the leaf upwards and paints the root
  black. \<open>lower_bound\<close> goes down from the root, to the right where the key of the node is
  \<open>Less\<close> than the searched key and to the left otherwise, and returns the last node it
  left to the left; \<open>upper_bound\<close> goes to the left where the searched key is \<open>Less\<close> than
  the key of the node, and to the right otherwise. \<open>equal_range\<close> is the elements from the
  one to the other.

  \<open>Less\<close> is not a strict weak ordering: \<open>*\<close> is equivalent to every key, and \<open>a\<close> and
  \<open>b\<close> are not equivalent. So the elements need not be partitioned with respect to a
  searched key, what the searches return depends on the shape of the tree, and the tree is
  modelled with its shape.
\<close>

datatype color = Red | Black

datatype 'a rbtree = Leaf | Br color "'a rbtree" 'a "'a rbtree"

fun inorder :: "'a rbtree \<Rightarrow> 'a list" where
  "inorder Leaf = []"
| "inorder (Br c l x r) = inorder l @ x # inorder r"

fun is_red :: "'a rbtree \<Rightarrow> bool" where
  "is_red (Br Red l x r) = True"
| "is_red t = False"

fun paint :: "color \<Rightarrow> 'a rbtree \<Rightarrow> 'a rbtree" where
  "paint c Leaf = Leaf"
| "paint c (Br c' l x r) = Br c l x r"

text \<open>
  The rebalancing loop follows one red node \<open>x\<close> up the tree, first the new leaf. The
  recursion returns, with the subtree, where \<open>x\<close> is in it: nowhere any more (\<open>Done\<close>, the
  loop has ended), at the root of the subtree (\<open>AtRoot\<close>), or at the left or the right child
  of the root, which is then the red parent of \<open>x\<close> (\<open>AtLeft\<close>, \<open>AtRight\<close>).

  \<open>rebalance_left c (l, s) g u\<close> is the step at the node \<open>g\<close> of colour \<open>c\<close> after an
  insertion into its left subtree, now \<open>l\<close>; \<open>u\<close> is the right subtree. With \<open>x\<close> at the
  root of \<open>l\<close>, \<open>g\<close> is the parent of \<open>x\<close> and the loop goes on only if \<open>g\<close> is red. With
  \<open>x\<close> a child of the root \<open>p\<close> of \<open>l\<close>, \<open>g\<close> is the grandparent and \<open>u\<close> the uncle: a red
  uncle is painted black together with \<open>p\<close>, \<open>g\<close> is painted red and becomes \<open>x\<close>; with a
  black uncle, \<open>x\<close> is first rotated above \<open>p\<close> when it is the right child, then the node
  above \<open>x\<close> is painted black, \<open>g\<close> is painted red and rotated to the right, and the loop
  ends. \<open>rebalance_right\<close> is the mirror image. (A red root with \<open>x\<close> below it does not
  arise: \<open>insert\<close> leaves the root black.)
\<close>

datatype fixup = Done | AtRoot | AtLeft | AtRight

fun rebalance_left :: "color \<Rightarrow> 'a rbtree \<times> fixup \<Rightarrow> 'a \<Rightarrow> 'a rbtree \<Rightarrow> 'a rbtree \<times> fixup" where
  "rebalance_left c (l, Done) g u = (Br c l g u, Done)"
| "rebalance_left c (l, AtRoot) g u = (Br c l g u, if c = Red then AtLeft else Done)"
| "rebalance_left c (Br cp x p d, AtLeft) g u =
     (if is_red u then (Br Red (Br Black x p d) g (paint Black u), AtRoot)
      else (Br Black x p (Br Red d g u), Done))"
| "rebalance_left c (Br cp a p (Br cz b z d), AtRight) g u =
     (if is_red u then (Br Red (Br Black a p (Br cz b z d)) g (paint Black u), AtRoot)
      else (Br Black (Br cp a p b) z (Br Red d g u), Done))"
| "rebalance_left c (l, s) g u = (Br c l g u, Done)"

fun rebalance_right :: "color \<Rightarrow> 'a rbtree \<Rightarrow> 'a \<Rightarrow> 'a rbtree \<times> fixup \<Rightarrow> 'a rbtree \<times> fixup" where
  "rebalance_right c u g (r, Done) = (Br c u g r, Done)"
| "rebalance_right c u g (r, AtRoot) = (Br c u g r, if c = Red then AtRight else Done)"
| "rebalance_right c u g (Br cp d p x, AtRight) =
     (if is_red u then (Br Red (paint Black u) g (Br Black d p x), AtRoot)
      else (Br Black (Br Red u g d) p x, Done))"
| "rebalance_right c u g (Br cp (Br cz b z d) p a, AtLeft) =
     (if is_red u then (Br Red (paint Black u) g (Br Black (Br cz b z d) p a), AtRoot)
      else (Br Black (Br Red u g b) z (Br cp d p a), Done))"
| "rebalance_right c u g (r, s) = (Br c u g r, Done)"

fun ins :: "string \<times> 'v \<Rightarrow> (string \<times> 'v) rbtree \<Rightarrow> (string \<times> 'v) rbtree \<times> fixup" where
  "ins kv Leaf = (Br Red Leaf kv Leaf, AtRoot)"
| "ins kv (Br c l x r) =
     (if Less (fst kv) (fst x) then rebalance_left c (ins kv l) x r
      else rebalance_right c l x (ins kv r))"

definition multimap_insert :: "string \<times> 'v \<Rightarrow> (string \<times> 'v) rbtree \<Rightarrow> (string \<times> 'v) rbtree" where
  "multimap_insert kv t = paint Black (fst (ins kv t))"

fun lower_bound :: "(string \<times> 'v) rbtree \<Rightarrow> string \<Rightarrow> nat" where
  "lower_bound Leaf k = 0"
| "lower_bound (Br c l x r) k =
     (if Less (fst x) k then length (inorder l) + 1 + lower_bound r k else lower_bound l k)"

fun upper_bound :: "(string \<times> 'v) rbtree \<Rightarrow> string \<Rightarrow> nat" where
  "upper_bound Leaf k = 0"
| "upper_bound (Br c l x r) k =
     (if Less k (fst x) then upper_bound l k else length (inorder l) + 1 + upper_bound r k)"

text \<open>
  The elements from the lower bound up to the upper bound. (The lower bound is never behind
  the upper bound, lemma \<open>lower_le_upper\<close>, so the loops over the range end.)
\<close>

definition equal_range :: "(string \<times> 'v) rbtree \<Rightarrow> string \<Rightarrow> (string \<times> 'v) list" where
  "equal_range t k =
     take (upper_bound t k - lower_bound t k) (drop (lower_bound t k) (inorder t))"

text \<open>
  Writing through the pointer that an iterator at position \<open>i\<close> holds: the mapped value of
  the \<open>i\<close>-th element is replaced, the key and the tree stay.
\<close>

fun set_second :: "nat \<Rightarrow> 'v \<Rightarrow> ('k \<times> 'v) rbtree \<Rightarrow> ('k \<times> 'v) rbtree" where
  "set_second i v Leaf = Leaf"
| "set_second i v (Br c l x r) =
     (if i < length (inorder l) then Br c (set_second i v l) x r
      else if i = length (inorder l) then Br c l (fst x, v) r
      else Br c l x (set_second (i - length (inorder l) - 1) v r))"

section \<open>The pattern trie\<close>

datatype result = NoMatch | DescendantMatch | Match

datatype node = Node (terminator: bool) (m_children: "(string \<times> node) rbtree")

text \<open>
  \<open>Node::child( name )\<close>: the first element of the equal range whose key is \<open>name\<close>. The
  pointer it returns is the position of the element together with the node there; 0 is
  \<open>None\<close>.
\<close>

fun child_scan :: "string \<Rightarrow> nat \<Rightarrow> (string \<times> node) list \<Rightarrow> (nat \<times> node) option" where
  "child_scan name i [] = None"
| "child_scan name i ((key, n) # rng) =
     (if key = name then Some (i, n) else child_scan name (Suc i) rng)"

definition child :: "node \<Rightarrow> string \<Rightarrow> (nat \<times> node) option" where
  "child node name =
     child_scan name (lower_bound (m_children node) name) (equal_range (m_children node) name)"

definition childRange :: "node \<Rightarrow> string \<Rightarrow> (string \<times> node) list" where
  "childRange node name = equal_range (m_children node) name"

text \<open>
  \<open>PathMatcher::matchWalk\<close>, with the reference parameter \<open>result\<close> passed in and returned.
  \<open>matchWalk_range\<close> is the \<open>for\<close> loop over the range of candidate children.
\<close>

fun matchWalk :: "node \<Rightarrow> string list \<Rightarrow> result \<Rightarrow> result"
  and matchWalk_range :: "(string \<times> node) list \<Rightarrow> string \<Rightarrow> string list \<Rightarrow> result \<Rightarrow> result" where
  "matchWalk node [] result = (if terminator node then Match else DescendantMatch)"
| "matchWalk node (start # newStart) result =
     matchWalk_range (childRange node start) start newStart result"
| "matchWalk_range [] start newStart result = result"
| "matchWalk_range ((key, n) # rng) start newStart result =
     (if wildcardMatch (c_str start) (c_str key) then
        (if matchWalk n newStart result = Match then Match
         else matchWalk_range rng start newStart (matchWalk n newStart result))
      else matchWalk_range rng start newStart result)"

text \<open>
  The loop of \<open>PathMatcher::addPath\<close> from a node on: the walk down the tokens, creating the
  children that are missing, and the terminator flag set on the last node. The source inserts
  the new child empty and fills it through the pointer afterwards; the position of the
  insertion depends on the key alone.
\<close>

fun addPath_walk :: "string list \<Rightarrow> node \<Rightarrow> node" where
  "addPath_walk [] node = Node True (m_children node)"
| "addPath_walk (name # rest) node =
     (case child node name of
        Some (i, nextNode) \<Rightarrow>
          Node (terminator node) (set_second i (addPath_walk rest nextNode) (m_children node))
      | None \<Rightarrow>
          Node (terminator node)
            (multimap_insert (name, addPath_walk rest (Node False Leaf)) (m_children node)))"

section \<open>The engine\<close>

text \<open>
  \<open>m_root\<close> is a \<open>boost::shared_ptr<Node>\<close>. The constructor has an empty body, which leaves
  it null; \<open>clear\<close> points it to a new node. \<open>match\<close> tests the pointer, \<open>addPath\<close> uses it
  as it is, and a null pointer used is the error.
\<close>

record PathMatcher =
  m_root :: "node option"

datatype error = NullPointerAccess

definition PathMatcher_new :: PathMatcher where
  "PathMatcher_new = \<lparr>m_root = None\<rparr>"

definition clear :: "PathMatcher \<Rightarrow> PathMatcher" where
  "clear pm = pm\<lparr>m_root := Some (Node False Leaf)\<rparr>"

definition match :: "PathMatcher \<Rightarrow> string \<Rightarrow> result" where
  "match pm path =
     (case m_root pm of
        None \<Rightarrow> NoMatch
      | Some node \<Rightarrow> matchWalk node (tokenize path) NoMatch)"

definition addPath :: "string \<Rightarrow> PathMatcher \<Rightarrow> error + PathMatcher" where
  "addPath path pm =
     (case m_root pm of
        None \<Rightarrow> Inl NullPointerAccess
      | Some node \<Rightarrow> Inr (pm\<lparr>m_root := Some (addPath_walk (tokenize path) node)\<rparr>))"

text \<open>A sequence of \<open>addPath\<close> calls, stopping at the first error.\<close>

fun addPaths :: "string list \<Rightarrow> PathMatcher \<Rightarrow> error + PathMatcher" where
  "addPaths [] pm = Inr pm"
| "addPaths (path # paths) pm =
     (case addPath path pm of Inl e \<Rightarrow> Inl e | Inr pm' \<Rightarrow> addPaths paths pm')"

text \<open>
  A scenario: an engine is constructed and cleared, the patterns are added in order, and one
  path is matched.
\<close>

definition match_after :: "string list \<Rightarrow> string \<Rightarrow> error + result" where
  "match_after paths path =
     (case addPaths paths (clear PathMatcher_new) of
        Inl e \<Rightarrow> Inl e
      | Inr pm \<Rightarrow> Inr (match pm path))"

section \<open>Definitions that follow the specification\<close>

text \<open>
  The segment matcher as the specification words it: at a \<open>*\<close> that is not the last
  character of the pattern, the rest of the pattern is tried against every suffix of the
  text, the empty suffix included.
\<close>

fun wildcardMatch_spec :: "string \<Rightarrow> string \<Rightarrow> bool"
  and wildcardMatch_spec_suffixes :: "string \<Rightarrow> string \<Rightarrow> bool" where
  "wildcardMatch_spec s [] = (s = [])"
| "wildcardMatch_spec s (c # p) =
     (if c = CHR ''*'' then (if p = [] then True else wildcardMatch_spec_suffixes s p)
      else (case s of [] \<Rightarrow> False | x # s' \<Rightarrow> c = x \<and> wildcardMatch_spec s' p))"
| "wildcardMatch_spec_suffixes [] p = wildcardMatch_spec [] p"
| "wildcardMatch_spec_suffixes (x # s') p =
     (wildcardMatch_spec (x # s') p \<or> wildcardMatch_spec_suffixes s' p)"

text \<open>
  The precedence of the results, and the walk as the specification words it: the best result
  over all the branches whose stored key matches the segment. The branches of a node are all
  its children, in the order of the container; none is left out and there is no early exit.
  \<open>match_best\<close> is \<open>match\<close> with this walk.
\<close>

fun precedence :: "result \<Rightarrow> nat" where
  "precedence NoMatch = 0"
| "precedence DescendantMatch = 1"
| "precedence Match = 2"

definition best :: "result \<Rightarrow> result \<Rightarrow> result" where
  "best a b = (if precedence a < precedence b then b else a)"

fun matchBest :: "node \<Rightarrow> string list \<Rightarrow> result"
  and matchBest_children :: "(string \<times> node) list \<Rightarrow> string \<Rightarrow> string list \<Rightarrow> result" where
  "matchBest node [] = (if terminator node then Match else DescendantMatch)"
| "matchBest node (s # rest) = matchBest_children (inorder (m_children node)) s rest"
| "matchBest_children [] s rest = NoMatch"
| "matchBest_children ((key, n) # cs) s rest =
     (if wildcardMatch (c_str s) (c_str key)
      then best (matchBest n rest) (matchBest_children cs s rest)
      else matchBest_children cs s rest)"

definition match_best :: "PathMatcher \<Rightarrow> string \<Rightarrow> result" where
  "match_best pm path =
     (case m_root pm of
        None \<Rightarrow> NoMatch
      | Some node \<Rightarrow> matchBest node (tokenize path))"

definition match_best_after :: "string list \<Rightarrow> string \<Rightarrow> error + result" where
  "match_best_after paths path =
     (case addPaths paths (clear PathMatcher_new) of
        Inl e \<Rightarrow> Inl e
      | Inr pm \<Rightarrow> Inr (match_best pm path))"


section \<open>Notions for the proofs about the walk\<close>

text \<open>
  The walk of the code with its early exit taken out: the candidates are those of the code,
  the children in the equal range of the segment, and every one of them is visited. It
  serves to separate what the early exit does (nothing) from what the choice of the
  candidates does.
\<close>

fun matchWalk_exhaustive :: "node \<Rightarrow> string list \<Rightarrow> result"
  and matchWalk_exhaustive_range ::
    "(string \<times> node) list \<Rightarrow> string \<Rightarrow> string list \<Rightarrow> result" where
  "matchWalk_exhaustive node [] = (if terminator node then Match else DescendantMatch)"
| "matchWalk_exhaustive node (s # rest) =
     matchWalk_exhaustive_range (childRange node s) s rest"
| "matchWalk_exhaustive_range [] s rest = NoMatch"
| "matchWalk_exhaustive_range ((key, n) # rng) s rest =
     (if wildcardMatch (c_str s) (c_str key)
      then best (matchWalk_exhaustive n rest) (matchWalk_exhaustive_range rng s rest)
      else matchWalk_exhaustive_range rng s rest)"

section \<open>Notions for the proofs about insertion\<close>

text \<open>
  Two notions for the proofs about \<open>insert\<close>. \<open>consistent k t i\<close>: the search for the
  upper bound of \<open>k\<close> in \<open>t\<close> passes the element at position \<open>i\<close>, whose key is \<open>k\<close>: it
  goes left exactly at the nodes that have the element in their left subtree.
  \<open>located k (t, s) i\<close>: moreover the element is in the subtree where the rebalancing loop
  has its red node \<open>x\<close>.
\<close>

fun consistent :: "string \<Rightarrow> (string \<times> 'v) rbtree \<Rightarrow> nat \<Rightarrow> bool" where
  "consistent k Leaf i = False"
| "consistent k (Br c l x r) i =
     (if i < length (inorder l) then Less k (fst x) \<and> consistent k l i
      else if i = length (inorder l) then fst x = k
      else \<not> Less k (fst x) \<and> consistent k r (i - length (inorder l) - 1))"

fun located :: "string \<Rightarrow> (string \<times> 'v) rbtree \<times> fixup \<Rightarrow> nat \<Rightarrow> bool" where
  "located k (Br c l p r, AtLeft) i = (consistent k (Br c l p r) i \<and> i < length (inorder l))"
| "located k (Br c l p r, AtRight) i = (consistent k (Br c l p r) i \<and> length (inorder l) < i)"
| "located k (Leaf, AtLeft) i = False"
| "located k (Leaf, AtRight) i = False"
| "located k (t, s) i = consistent k t i"

section \<open>The segment matcher and the comparator\<close>

text \<open>
  C1. The segment matcher is to return true iff the text matches the pattern, where a \<open>*\<close>
  that is not the last character of the pattern succeeds iff the rest of the pattern matches
  some suffix of the text, the empty suffix included, so that \<open>a**\<close> matches \<open>a\<close>. The
  inner loop of \<open>wildcardMatch\<close> runs \<open>while( *s != '\0' )\<close> and never tries the empty
  suffix: on the text \<open>a\<close> and the pattern \<open>a**\<close> the specification's matcher succeeds
  and the code returns false.
\<close>

theorem wildcardMatch_misses_empty_suffix:
  "wildcardMatch_spec ''a'' ''a**'' \<and> \<not> wildcardMatch ''a'' ''a**''"
  by (simp add: NUL_def)

lemma Less_skip_append: "Less_skip (p @ ra) (p @ rb) = Less_skip ra rb"
  by (induction p) simp_all

lemma Less_skip_diverged: "deref ra \<noteq> deref rb \<Longrightarrow> Less_skip ra rb = (ra, rb)"
  by (cases ra; cases rb) simp_all

text \<open>
  C8. Let \<open>p\<close> be the longest common prefix of the two keys, so that the characters that
  follow it (the terminating NUL where a key ends) differ. If either of them is \<open>*\<close>, the
  comparator puts neither key before the other; if neither is, it orders the keys as
  \<open>char\<close> orders these two characters.
\<close>

theorem Less_at_divergence:
  assumes "c_str a = p @ ra" and "c_str b = p @ rb" and "deref ra \<noteq> deref rb"
  shows "(deref ra = CHR ''*'' \<or> deref rb = CHR ''*'' \<longrightarrow> \<not> Less a b \<and> \<not> Less b a) \<and>
         (deref ra \<noteq> CHR ''*'' \<and> deref rb \<noteq> CHR ''*'' \<longrightarrow>
            Less a b = char_less (deref ra) (deref rb) \<and>
            Less b a = char_less (deref rb) (deref ra))"
proof -
  have ab: "Less_skip (c_str a) (c_str b) = (ra, rb)"
    using assms by (simp add: Less_skip_append Less_skip_diverged)
  have ba: "Less_skip (c_str b) (c_str a) = (rb, ra)"
    using assms Less_skip_diverged [of rb ra] by (simp add: Less_skip_append)
  show ?thesis
    by (simp add: Less_def ab ba)
qed

theorem Less_at_divergence_witness:
  "c_str ''ab'' = ''a'' @ ''b'' \<and> c_str ''a*'' = ''a'' @ ''*'' \<and> deref ''b'' \<noteq> deref ''*'' \<and>
   \<not> Less ''ab'' ''a*'' \<and> \<not> Less ''a*'' ''ab'' \<and>
   c_str ''ac'' = ''a'' @ ''c'' \<and> deref ''b'' \<noteq> deref ''c'' \<and>
   Less ''ab'' ''ac'' \<and> \<not> Less ''ac'' ''ab''"
proof -
  have 1: "c_str ''ab'' = ''a'' @ ''b''" and 2: "c_str ''a*'' = ''a'' @ ''*''"
    and 3: "c_str ''ac'' = ''a'' @ ''c''"
    by (simp_all add: c_str_def NUL_def)
  have 4: "deref ''b'' \<noteq> deref ''*''" and 5: "deref ''b'' \<noteq> deref ''c''" by simp_all
  show ?thesis
    using Less_at_divergence [OF 1 2 4] Less_at_divergence [OF 1 3 5] 1 2 3
    by (simp add: char_less_def schar_def)
qed

section \<open>Tokens\<close>

lemma tokenize_Nil [simp]: "tokenize [] = []"
  by (simp add: tokenize.simps)

lemma tokenize_slash [simp]: "tokenize (CHR ''/'' # s) = tokenize s"
  by (simp add: tokenize.simps [of "CHR ''/'' # s"] tokenize.simps [of s] is_dropped_def)

lemma tokenize_char [simp]:
  "c \<noteq> CHR ''/'' \<Longrightarrow>
   tokenize (c # s) =
     (c # takeWhile (\<lambda>x. x \<noteq> CHR ''/'') s) # tokenize (dropWhile (\<lambda>x. x \<noteq> CHR ''/'') s)"
  by (simp add: tokenize.simps [of "c # s"] is_dropped_def)

lemma tokenize_token:
  assumes "CHR ''/'' \<notin> set t" and "t \<noteq> []"
  shows "tokenize (t @ CHR ''/'' # s) = t # tokenize s" and "tokenize t = [t]"
proof -
  obtain c t' where t: "t = c # t'" using assms(2) by (cases t) auto
  have c: "c \<noteq> CHR ''/''" and t': "\<forall>x\<in>set t'. x \<noteq> CHR ''/''" using assms(1) t by auto
  have tw: "takeWhile (\<lambda>x. x \<noteq> CHR ''/'') (t' @ CHR ''/'' # s) = t'"
    using t' by (simp add: takeWhile_append2)
  have dw: "dropWhile (\<lambda>x. x \<noteq> CHR ''/'') (t' @ CHR ''/'' # s) = CHR ''/'' # s"
    using t' by (simp add: dropWhile_append2)
  show "tokenize (t @ CHR ''/'' # s) = t # tokenize s"
    using c by (simp add: t tw dw)
  have tw': "takeWhile (\<lambda>x. x \<noteq> CHR ''/'') t' = t'"
    and dw': "dropWhile (\<lambda>x. x \<noteq> CHR ''/'') t' = []"
    using t' by simp_all
  show "tokenize t = [t]"
    using c by (simp add: t tw' dw')
qed

lemma tokenize_segments:
  "\<forall>t\<in>set ts. CHR ''/'' \<notin> set t \<Longrightarrow>
   tokenize (concat (map (\<lambda>t. CHR ''/'' # t) ts)) = filter (\<lambda>t. t \<noteq> []) ts"
proof (induction ts)
  case Nil
  show ?case by simp
next
  case (Cons t ts)
  show ?case
  proof (cases "t = []")
    case True
    then show ?thesis using Cons by simp
  next
    case False
    have t: "CHR ''/'' \<notin> set t" using Cons.prems by simp
    show ?thesis
    proof (cases ts)
      case Nil
      then show ?thesis using tokenize_token(2) [OF t False] False by simp
    next
      case (Cons u us)
      have "tokenize (t @ CHR ''/'' # u @ concat (map (\<lambda>t. CHR ''/'' # t) us)) =
            t # tokenize (u @ concat (map (\<lambda>t. CHR ''/'' # t) us))"
        by (rule tokenize_token(1) [OF t False])
      moreover have "tokenize (CHR ''/'' # u @ concat (map (\<lambda>t. CHR ''/'' # t) us)) =
            filter (\<lambda>t. t \<noteq> []) ts"
        using Cons.IH Cons.prems Cons by simp
      ultimately show ?thesis using False Cons by simp
    qed
  qed
qed

lemma tokenize_a_b: "tokenize ''/a//b'' = [''a'', ''b'']" "tokenize ''/a/b'' = [''a'', ''b'']"
  by simp_all

lemma path_segments:
  "\<exists>t ts. path = t @ concat (map (\<lambda>t. CHR ''/'' # t) ts) \<and>
          (\<forall>t'\<in>set (t # ts). CHR ''/'' \<notin> set t')"
proof (induction path)
  case Nil
  have "[] = [] @ concat (map (\<lambda>t. CHR ''/'' # t) []) \<and>
        (\<forall>t'\<in>set ([] # []). CHR ''/'' \<notin> set t')"
    by simp
  then show ?case by blast
next
  case (Cons c path)
  then obtain t ts where p: "path = t @ concat (map (\<lambda>t. CHR ''/'' # t) ts)"
    and f: "\<forall>t'\<in>set (t # ts). CHR ''/'' \<notin> set t'"
    by blast
  show ?case
  proof (cases "c = CHR ''/''")
    case True
    have "c # path = [] @ concat (map (\<lambda>t. CHR ''/'' # t) (t # ts)) \<and>
          (\<forall>t'\<in>set ([] # t # ts). CHR ''/'' \<notin> set t')"
      using p f True by simp
    then show ?thesis by blast
  next
    case False
    have "c # path = (c # t) @ concat (map (\<lambda>t. CHR ''/'' # t) ts) \<and>
          (\<forall>t'\<in>set ((c # t) # ts). CHR ''/'' \<notin> set t')"
      using p f False by simp
    then show ?thesis by blast
  qed
qed

text \<open>
  C2, as the code has it. Every path is a sequence of segments free of \<open>/\<close> with one \<open>/\<close>
  between two neighbours (lemma \<open>path_segments\<close>), and its tokens are its segments in
  order, the empty ones dropped. So \<open>/a//b\<close> and \<open>/a/b\<close> are the same pattern and the same
  query, and on a cleared engine after \<open>addPath("/a//b")\<close> both match.
\<close>

theorem tokenize_drops_empty_segments:
  assumes "\<forall>t'\<in>set (t # ts). CHR ''/'' \<notin> set t'"
  shows "tokenize (t @ concat (map (\<lambda>t. CHR ''/'' # t) ts)) = filter (\<lambda>t. t \<noteq> []) (t # ts) \<and>
         match_after [''/a//b''] ''/a/b'' = Inr Match \<and>
         match_after [''/a//b''] ''/a//b'' = Inr Match"
proof -
  have "match_after [''/a//b''] ''/a/b'' = Inr Match"
    by code_simp
  moreover have "match_after [''/a//b''] ''/a//b'' = Inr Match"
    by code_simp
  moreover have "tokenize (CHR ''/'' # t @ concat (map (\<lambda>t. CHR ''/'' # t) ts)) =
                 filter (\<lambda>t. t \<noteq> []) (t # ts)"
    using tokenize_segments [OF assms] by simp
  ultimately show ?thesis
    by (simp del: filter.simps)
qed

theorem tokenize_drops_empty_segments_witness:
  "CHR ''/'' \<notin> set '''' \<and> CHR ''/'' \<notin> set ''a'' \<and> CHR ''/'' \<notin> set ''b'' \<and>
   tokenize ''/a//b'' = [''a'', ''b'']"
  using tokenize_drops_empty_segments [of "''''" "[''a'', '''', ''b'']"] by simp

text \<open>
  The claim C2 as stated fails: after \<open>addPath("/a//b")\<close> on a cleared engine,
  \<open>match("/a/b")\<close> is \<open>Match\<close>, not \<open>NoMatch\<close>, because the tokens of \<open>/a//b\<close> are
  \<open>a\<close> and \<open>b\<close>, with no empty token between them.
\<close>

theorem empty_segment_counterexample:
  "tokenize ''/a//b'' = [''a'', ''b''] \<and> match_after [''/a//b''] ''/a/b'' = Inr Match"
proof -
  have "match_after [''/a//b''] ''/a/b'' = Inr Match"
    by code_simp
  then show ?thesis by simp
qed

section \<open>The root\<close>

text \<open>
  C3, as the code has it. On an engine that has a root, a path with no token gets \<open>Match\<close>
  when the root is a terminator and \<open>DescendantMatch\<close> otherwise, whether or not the trie
  stores a pattern; \<open>NoMatch\<close> is the answer of an engine with no root only.
\<close>

theorem match_empty_path:
  assumes "tokenize path = []"
  shows "match pm path =
     (case m_root pm of
        None \<Rightarrow> NoMatch
      | Some node \<Rightarrow> if terminator node then Match else DescendantMatch)"
  using assms by (simp add: match_def split: option.split)

theorem match_empty_path_witness:
  "tokenize ''/'' = [] \<and> match (clear PathMatcher_new) ''/'' = DescendantMatch"
  using match_empty_path [of "''/''" "clear PathMatcher_new"]
  by (simp add: clear_def PathMatcher_new_def)

text \<open>
  The claim C3 as stated fails on the empty trie: a freshly cleared engine, which stores
  nothing, answers \<open>DescendantMatch\<close> to the empty path, not \<open>NoMatch\<close>.
\<close>

theorem match_empty_path_counterexample:
  "m_root (clear PathMatcher_new) = Some (Node False Leaf) \<and> tokenize [] = [] \<and>
   match (clear PathMatcher_new) [] = DescendantMatch"
  by (simp add: clear_def PathMatcher_new_def match_def)

lemma addPaths_root:
  "m_root pm \<noteq> None \<Longrightarrow> \<exists>pm'. addPaths paths pm = Inr pm' \<and> m_root pm' \<noteq> None"
proof (induction paths arbitrary: pm)
  case Nil
  then show ?case by simp
next
  case (Cons p paths)
  then obtain node where n: "m_root pm = Some node" by auto
  have "m_root (pm\<lparr>m_root := Some (addPath_walk (tokenize p) node)\<rparr>) \<noteq> None" by simp
  from Cons.IH [OF this] show ?case
    by (simp add: addPath_def n)
qed

text \<open>
  C4, as the code has it. The constructor leaves the root pointer null. \<open>match\<close> tests the
  pointer and answers \<open>NoMatch\<close> to every path; \<open>clear\<close> makes the empty trie, a root that
  is no terminator and has no child, and from there on every \<open>addPath\<close> finds a root and
  leaves one. (What \<open>addPath\<close> does with the null root is not part of this statement.)
\<close>

theorem constructed_engine:
  "m_root PathMatcher_new = None \<and>
   match PathMatcher_new path = NoMatch \<and>
   m_root (clear pm) = Some (Node False Leaf) \<and>
   (\<exists>pm'. addPaths paths (clear pm) = Inr pm' \<and> m_root pm' \<noteq> None)"
proof -
  have "m_root (clear pm) \<noteq> None" by (simp add: clear_def)
  from addPaths_root [OF this, of paths] show ?thesis
    by (simp add: PathMatcher_new_def match_def clear_def)
qed

text \<open>
  The claim C4 as stated fails: a newly constructed engine has no root node, and
  \<open>addPath\<close> called on it before any \<open>clear\<close> goes through the null pointer.
\<close>

theorem constructed_engine_counterexample:
  "m_root PathMatcher_new = None \<and> addPath ''/a'' PathMatcher_new = Inl NullPointerAccess"
  by (simp add: PathMatcher_new_def addPath_def)

section \<open>The walk\<close>

lemma best_Match [simp]: "best Match b = Match" "best a Match = Match"
  by (cases b; cases a; simp add: best_def)+

lemma best_NoMatch [simp]: "best NoMatch b = b" "best a NoMatch = a"
  by (cases b; cases a; simp add: best_def)+

lemma best_assoc: "best (best a b) c = best a (best b c)"
  by (cases a; cases b; cases c; simp add: best_def)

lemma best_eq_Match: "best a b = Match \<longleftrightarrow> a = Match \<or> b = Match"
  by (cases a; cases b; simp add: best_def)

lemma precedence_best: "precedence (best a b) = max (precedence a) (precedence b)"
  by (simp add: best_def)

text \<open>
  The early exit changes nothing: the walk of the code returns what the walk over the same
  candidates returns that visits them all.
\<close>

lemma matchWalk_exhaustive_eq:
  "result \<noteq> Match \<Longrightarrow>
   matchWalk node segs result = best result (matchWalk_exhaustive node segs)"
  "result \<noteq> Match \<Longrightarrow>
   matchWalk_range rng start newStart result =
     best result (matchWalk_exhaustive_range rng start newStart)"
proof (induction node segs result and rng start newStart result
    rule: matchWalk_matchWalk_range.induct)
  case (1 node result)
  then show ?case by (cases result) (simp_all add: best_def)
next
  case (2 node start newStart result)
  then show ?case by simp
next
  case (3 start newStart result)
  show ?case by simp
next
  case (4 key n rng start newStart result)
  show ?case
  proof (cases "wildcardMatch (c_str start) (c_str key)")
    case False
    then show ?thesis using "4.IH"(4) "4.prems" by simp
  next
    case True
    have w: "matchWalk n newStart result = best result (matchWalk_exhaustive n newStart)"
      using "4.IH"(1) [OF True] "4.prems" by simp
    show ?thesis
    proof (cases "matchWalk n newStart result = Match")
      case m: True
      then have "matchWalk_exhaustive n newStart = Match"
        using w "4.prems" by (simp add: best_eq_Match)
      then show ?thesis using True m by simp
    next
      case m: False
      have "matchWalk_range rng start newStart (matchWalk n newStart result) =
            best (matchWalk n newStart result) (matchWalk_exhaustive_range rng start newStart)"
        using "4.IH"(3) [OF True m] m by simp
      then show ?thesis using True m w by (simp add: best_assoc)
    qed
  qed
qed

lemma early_exit_harmless:
  "match pm path =
     (case m_root pm of
        None \<Rightarrow> NoMatch
      | Some node \<Rightarrow> matchWalk_exhaustive node (tokenize path))"
  by (simp add: match_def matchWalk_exhaustive_eq split: option.split)

text \<open>
  The candidates of the code are some of the children, so the code never returns more than
  the best over all the branches.
\<close>

lemma set_equal_range: "set (equal_range t k) \<subseteq> set (inorder t)"
  unfolding equal_range_def by (meson set_take_subset set_drop_subset subset_trans)

lemma matchBest_children_member:
  "(key, n) \<in> set cs \<Longrightarrow> wildcardMatch (c_str s) (c_str key) \<Longrightarrow>
   precedence (matchBest n rest) \<le> precedence (matchBest_children cs s rest)"
  by (induction cs) (auto simp: precedence_best)

lemma matchWalk_exhaustive_le_best:
  "precedence (matchWalk_exhaustive node segs) \<le> precedence (matchBest node segs)"
  "set rng \<subseteq> set cs \<Longrightarrow>
   precedence (matchWalk_exhaustive_range rng s rest) \<le>
     precedence (matchBest_children cs s rest)"
proof (induction node segs and rng s rest arbitrary: and cs
    rule: matchWalk_exhaustive_matchWalk_exhaustive_range.induct)
  case (1 node)
  show ?case by simp
next
  case (2 node s rest)
  show ?case
    using "2.IH" [of "inorder (m_children node)"] set_equal_range [of "m_children node" s]
    by (simp add: childRange_def)
next
  case (3 s rest)
  show ?case by simp
next
  case (4 key n rng s rest)
  have r: "precedence (matchWalk_exhaustive_range rng s rest) \<le>
           precedence (matchBest_children cs s rest)"
    using "4.IH"(2,3) [of cs] "4.prems" by (cases "wildcardMatch (c_str s) (c_str key)") auto
  show ?case
  proof (cases "wildcardMatch (c_str s) (c_str key)")
    case False
    then show ?thesis using r by simp
  next
    case True
    have "precedence (matchWalk_exhaustive n rest) \<le> precedence (matchBest n rest)"
      using "4.IH"(1) [OF True] .
    moreover have "precedence (matchBest n rest) \<le> precedence (matchBest_children cs s rest)"
      using matchBest_children_member [of key n cs s rest] "4.prems" True by simp
    ultimately show ?thesis using True r by (simp add: precedence_best)
  qed
qed

lemma match_le_match_best: "precedence (match pm path) \<le> precedence (match_best pm path)"
  by (simp add: early_exit_harmless match_best_def matchWalk_exhaustive_le_best
      split: option.split)

text \<open>
  C5. The result of \<open>match\<close> is to be the result of highest precedence over all the branches
  whose stored key matches the query segment. After \<open>addPath("/a")\<close> and \<open>addPath("/*")\<close>
  on a cleared engine the root has the two branches \<open>a\<close> and \<open>*\<close>; the key \<open>*\<close> matches
  the segment of \<open>/0\<close> and its node is a terminator, so the best over the matching branches
  is \<open>Match\<close>, and \<open>match("/0")\<close> is \<open>NoMatch\<close>: the branch \<open>*\<close> is not in the equal range
  of \<open>0\<close>, and the walk never enters it.
\<close>

theorem best_branch_missed:
  "match_best_after [''/a'', ''/*''] ''/0'' = Inr Match \<and>
   match_after [''/a'', ''/*''] ''/0'' = Inr NoMatch"
  by code_simp

section \<open>The multimap: bounds and insertion\<close>

lemma Less_skip_sym: "Less_skip a b = (ra, rb) \<Longrightarrow> Less_skip b a = (rb, ra)"
  by (induction a b rule: Less_skip.induct) (auto split: if_splits)

lemma Less_asym: "Less a b \<Longrightarrow> \<not> Less b a"
proof -
  obtain ra rb where s: "Less_skip (c_str a) (c_str b) = (ra, rb)"
    by (cases "Less_skip (c_str a) (c_str b)")
  show "Less a b \<Longrightarrow> \<not> Less b a"
    using s Less_skip_sym [OF s]
    by (auto simp: Less_def char_less_def split: if_splits)
qed

lemma Less_irrefl [simp]: "\<not> Less a a"
  using Less_asym [of a a] by blast

lemma inorder_paint [simp]: "inorder (paint c t) = inorder t"
  by (cases t) simp_all

lemma lower_bound_paint [simp]: "lower_bound (paint c t) k = lower_bound t k"
  by (cases t) simp_all

lemma upper_bound_paint [simp]: "upper_bound (paint c t) k = upper_bound t k"
  by (cases t) simp_all

lemma consistent_paint [simp]: "consistent k (paint c t) i = consistent k t i"
  by (cases t) simp_all

lemma lower_bound_le_length: "lower_bound t k \<le> length (inorder t)"
  by (induction t) auto

lemma upper_bound_le_length: "upper_bound t k \<le> length (inorder t)"
  by (induction t) auto

lemma lower_le_upper: "lower_bound t k \<le> upper_bound t k"
proof (induction t)
  case Leaf
  show ?case by simp
next
  case (Br c l x r)
  show ?case
    using Br lower_bound_le_length [of l k] Less_asym [of "fst x" k]
    by auto
qed

lemma consistent_less_length: "consistent k t i \<Longrightarrow> i < length (inorder t)"
proof (induction t arbitrary: i)
  case Leaf
  then show ?case by simp
next
  case (Br c l x r)
  show ?case
    using Br.prems Br.IH(1) [of i] Br.IH(2) [of "i - length (inorder l) - 1"]
    by (auto split: if_splits)
qed

lemma consistent_lower: "consistent k t i \<Longrightarrow> lower_bound t k \<le> i"
proof (induction t arbitrary: i)
  case Leaf
  then show ?case by simp
next
  case (Br c l x r)
  show ?case
    using Br.prems Br.IH(1) [of i] Br.IH(2) [of "i - length (inorder l) - 1"]
      lower_bound_le_length [of l k] Less_asym [of k "fst x"]
    by (auto split: if_splits)
qed


lemma consistent_upper: "consistent k t i \<Longrightarrow> i < upper_bound t k"
proof (induction t arbitrary: i)
  case Leaf
  then show ?case by simp
next
  case (Br c l x r)
  show ?case
    using Br.prems Br.IH(1) [of i] Br.IH(2) [of "i - length (inorder l) - 1"]
    by (auto split: if_splits)
qed

lemma inorder_rebalance_left [simp]:
  "inorder (fst (rebalance_left c ls g u)) = inorder (fst ls) @ g # inorder u"
  by (induction c ls g u rule: rebalance_left.induct) simp_all

lemma inorder_rebalance_right [simp]:
  "inorder (fst (rebalance_right c u g rs)) = inorder u @ g # inorder (fst rs)"
  by (induction c u g rs rule: rebalance_right.induct) simp_all

lemma inorder_ins:
  "inorder (fst (ins kv t)) =
     take (upper_bound t (fst kv)) (inorder t) @ kv # drop (upper_bound t (fst kv)) (inorder t)"
proof (induction t)
  case Leaf
  show ?case by simp
next
  case (Br c l x r)
  show ?case
    using Br upper_bound_le_length [of l "fst kv"]
    by simp
qed

lemma located_consistent: "located k ts i \<Longrightarrow> consistent k (fst ts) i"
  by (induction k ts i rule: located.induct) (simp_all del: consistent.simps)

lemma located_rebalance_left:
  "located k ls i \<Longrightarrow> Less k (fst g) \<Longrightarrow> located k (rebalance_left c ls g u) i"
proof (induction c ls g u rule: rebalance_left.induct)
  case (1 c l g u)
  then show ?case using consistent_less_length [of k l i] by simp
next
  case (2 c l g u)
  then show ?case using consistent_less_length [of k l i] by simp
next
  case (3 c cp x p d g u)
  then show ?case by simp
next
  case (4 c cp a p cz b z d g u)
  then show ?case
    using consistent_less_length [of k d "i - length (inorder a) - 1 - length (inorder b) - 1"]
    by (auto split: if_splits)
qed (auto split: if_splits)

lemma located_rebalance_right:
  "located k rs i \<Longrightarrow> \<not> Less k (fst g) \<Longrightarrow>
   located k (rebalance_right c u g rs) (length (inorder u) + 1 + i)"
proof (induction c u g rs rule: rebalance_right.induct)
  case (4 c u g cp cz b z d p a)
  then show ?case
    using consistent_less_length [of k b i]
    by (auto split: if_splits)
qed (auto split: if_splits)

lemma located_ins: "located (fst kv) (ins kv t) (upper_bound t (fst kv))"
proof (induction t)
  case Leaf
  show ?case by simp
next
  case (Br c l x r)
  show ?case
    using Br located_rebalance_left [of "fst kv" "ins kv l" "upper_bound l (fst kv)" x c r]
      located_rebalance_right [of "fst kv" "ins kv r" "upper_bound r (fst kv)" x c l]
    by simp
qed


lemma upper_bound_rebalance_left:
  "located k ls i \<Longrightarrow> Less k (fst g) \<Longrightarrow>
   upper_bound (fst (rebalance_left c ls g u)) k = upper_bound (fst ls) k"
  by (induction c ls g u rule: rebalance_left.induct) (auto split: if_splits)

lemma upper_bound_rebalance_right:
  "located k rs i \<Longrightarrow> \<not> Less k (fst g) \<Longrightarrow>
   upper_bound (fst (rebalance_right c u g rs)) k =
     length (inorder u) + 1 + upper_bound (fst rs) k"
  by (induction c u g rs rule: rebalance_right.induct) (auto split: if_splits)

lemma upper_bound_ins: "upper_bound (fst (ins kv t)) (fst kv) = Suc (upper_bound t (fst kv))"
proof (induction t)
  case Leaf
  show ?case by simp
next
  case (Br c l x r)
  show ?case
    using Br located_ins [of kv l] located_ins [of kv r]
    by (simp add: upper_bound_rebalance_left upper_bound_rebalance_right)
qed

lemma lower_bound_rebalance_left:
  "located k ls i \<Longrightarrow> Less k (fst g) \<Longrightarrow>
   lower_bound (fst ls) k \<le> lower_bound (fst (rebalance_left c ls g u)) k"
proof (induction c ls g u rule: rebalance_left.induct)
  case (3 c cp x p d g u)
  then show ?case using Less_asym [of k "fst g"] by (auto split: if_splits)
next
  case (4 c cp a p cz b z d g u)
  then show ?case
    using Less_asym [of k "fst g"] lower_bound_le_length [of a k]
    by (auto split: if_splits)
qed (auto split: if_splits dest: Less_asym)

lemma lower_bound_rebalance_right:
  "located k rs i \<Longrightarrow> \<not> Less k (fst g) \<Longrightarrow>
   lower_bound (Br c u g (fst rs)) k \<le> lower_bound (fst (rebalance_right c u g rs)) k"
proof (induction c u g rs rule: rebalance_right.induct)
  case (3 c u g cp d p x)
  then show ?case using lower_bound_le_length [of u k] by (auto split: if_splits)
next
  case (4 c u g cp cz b z d p a)
  then show ?case
    using lower_bound_le_length [of u k] Less_asym [of k "fst p"]
    by (auto split: if_splits)
qed (auto split: if_splits)

lemma lower_bound_ins_mono: "lower_bound t (fst kv) \<le> lower_bound (fst (ins kv t)) (fst kv)"
proof (induction t)
  case Leaf
  show ?case by simp
next
  case (Br c l x r)
  show ?case
  proof (cases "Less (fst kv) (fst x)")
    case True
    have "lower_bound (fst (ins kv l)) (fst kv) \<le>
          lower_bound (fst (rebalance_left c (ins kv l) x r)) (fst kv)"
      by (rule lower_bound_rebalance_left [OF located_ins True])
    then show ?thesis using True Br.IH(1) Less_asym [OF True] by simp
  next
    case False
    have "lower_bound (Br c l x (fst (ins kv r))) (fst kv) \<le>
          lower_bound (fst (rebalance_right c l x (ins kv r))) (fst kv)"
      by (rule lower_bound_rebalance_right [OF located_ins False])
    then show ?thesis using False Br.IH(2) by (auto split: if_splits)
  qed
qed

lemma lower_bound_ins_le: "lower_bound (fst (ins kv t)) (fst kv) \<le> upper_bound t (fst kv)"
  by (rule consistent_lower [OF located_consistent [OF located_ins]])

section \<open>Adding a pattern twice\<close>

lemma child_scan_append:
  "name \<notin> fst ` set xs \<Longrightarrow>
   child_scan name b (xs @ ys) = child_scan name (b + length xs) ys"
  by (induction xs arbitrary: b) auto

lemma child_scan_None_iff: "child_scan name b rng = None \<longleftrightarrow> name \<notin> fst ` set rng"
proof (induction rng arbitrary: b)
  case Nil
  show ?case by simp
next
  case (Cons kn rng)
  obtain key n where kn: "kn = (key, n)" by (cases kn)
  show ?case using Cons.IH [of "Suc b"] by (simp add: kn)
qed

lemma child_scan_Some:
  "child_scan name b rng = Some (i, c) \<Longrightarrow>
   \<exists>xs ys. rng = xs @ (name, c) # ys \<and> name \<notin> fst ` set xs \<and> i = b + length xs"
proof (induction rng arbitrary: b)
  case Nil
  then show ?case by simp
next
  case (Cons kn rng)
  obtain key n where kn: "kn = (key, n)" by (cases kn)
  show ?case
  proof (cases "key = name")
    case True
    then have "(key, n) # rng = [] @ (name, c) # rng \<and> i = b + length ([] :: (string \<times> node) list)"
      using Cons.prems kn by simp
    then show ?thesis unfolding kn by (metis empty_iff image_empty list.set(1))
  next
    case False
    then have "child_scan name (Suc b) rng = Some (i, c)" using Cons.prems kn by simp
    from Cons.IH [OF this] obtain xs ys where
      r: "rng = xs @ (name, c) # ys" "name \<notin> fst ` set xs" "i = Suc b + length xs"
      by blast
    have "kn # rng = (kn # xs) @ (name, c) # ys \<and> name \<notin> fst ` set (kn # xs) \<and>
          i = b + length (kn # xs)"
      using r False kn by simp
    then show ?thesis by blast
  qed
qed

lemma inorder_set_second:
  "inorder (set_second i v t) = (inorder t)[i := (fst (inorder t ! i), v)]"
proof (induction t arbitrary: i)
  case Leaf
  show ?case by simp
next
  case (Br c l x r)
  consider "i < length (inorder l)" | "i = length (inorder l)" | "length (inorder l) < i"
    by linarith
  then show ?case
  proof cases
    case 1
    then show ?thesis using Br.IH(1) [of i] by (simp add: list_update_append nth_append)
  next
    case 2
    then show ?thesis by (simp add: list_update_append nth_append)
  next
    case 3
    then obtain j where j: "i = length (inorder l) + Suc j"
      by (metis less_iff_Suc_add add_Suc_right)
    show ?thesis using Br.IH(2) [of j] by (simp add: j list_update_append nth_append)
  qed
qed

lemma length_inorder_set_second [simp]:
  "length (inorder (set_second i v t)) = length (inorder t)"
  by (simp add: inorder_set_second)

lemma lower_bound_set_second [simp]: "lower_bound (set_second i v t) k = lower_bound t k"
  by (induction t arbitrary: i) simp_all

lemma upper_bound_set_second [simp]: "upper_bound (set_second i v t) k = upper_bound t k"
  by (induction t arbitrary: i) simp_all

lemma set_second_same:
  "i < length (inorder t) \<Longrightarrow> snd (inorder t ! i) = v \<Longrightarrow> set_second i v t = t"
proof (induction t arbitrary: i)
  case Leaf
  then show ?case by simp
next
  case (Br c l x r)
  show ?case
    using Br.prems Br.IH(1) [of i] Br.IH(2) [of "i - length (inorder l) - 1"]
    by (auto simp: nth_append split: if_splits)
qed

lemma set_second_twice [simp]: "set_second i v (set_second i w t) = set_second i v t"
  by (induction t arbitrary: i) simp_all

lemma equal_range_set_second:
  "equal_range (set_second i v t) k =
     (equal_range t k)[i - lower_bound t k := (fst (inorder t ! i), v)]"
  if "lower_bound t k \<le> i"
  using that by (simp add: equal_range_def inorder_set_second take_update_swap drop_update_swap)

lemma child_set_second:
  assumes "child (Node t ch) s = Some (i, c)"
  shows "child (Node t (set_second i c' ch)) s = Some (i, c')"
proof -
  let ?lb = "lower_bound ch s" and ?rng = "equal_range ch s"
  from assms have "child_scan s ?lb ?rng = Some (i, c)" by (simp add: child_def)
  from child_scan_Some [OF this] obtain xs ys where
    r: "?rng = xs @ (s, c) # ys" "s \<notin> fst ` set xs" "i = ?lb + length xs"
    by blast
  have j: "length xs < length ?rng" using r(1) by simp
  have "?rng ! length xs = inorder ch ! i"
    using j r(3) lower_bound_le_length [of ch s] by (simp add: equal_range_def)
  then have "inorder ch ! i = (s, c)" using r(1) by simp
  then have k: "fst (inorder ch ! i) = s" by simp
  have "equal_range (set_second i c' ch) s = xs @ (s, c') # ys"
    using r k by (simp add: equal_range_set_second)
  then show ?thesis
    using r by (simp add: child_def child_scan_append)
qed

lemma equal_range_insert:
  assumes "s \<notin> fst ` set (equal_range ch s)"
  shows "\<exists>xs. equal_range (multimap_insert (s, v) ch) s = xs @ [(s, v)] \<and>
              s \<notin> fst ` set xs \<and>
              lower_bound (multimap_insert (s, v) ch) s + length xs = upper_bound ch s"
proof -
  let ?L = "inorder ch" and ?u = "upper_bound ch s" and ?lb = "lower_bound ch s"
  let ?t' = "multimap_insert (s, v) ch"
  let ?lb' = "lower_bound ?t' s"
  have lb': "?lb \<le> ?lb'" "?lb' \<le> ?u"
    using lower_bound_ins_mono [of ch "(s, v)"] lower_bound_ins_le [of "(s, v)" ch]
    by (simp_all add: multimap_insert_def)
  have ub': "upper_bound ?t' s = Suc ?u"
    using upper_bound_ins [of "(s, v)" ch] by (simp add: multimap_insert_def)
  have L': "inorder ?t' = take ?u ?L @ (s, v) # drop ?u ?L"
    using inorder_ins [of "(s, v)" ch] by (simp add: multimap_insert_def)
  have u: "?u \<le> length ?L" by (rule upper_bound_le_length)
  let ?xs = "drop ?lb' (take ?u ?L)"
  have len: "length ?xs = ?u - ?lb'" using u by simp
  have "equal_range ?t' s = take (Suc ?u - ?lb') (?xs @ (s, v) # drop ?u ?L)"
    using lb' u by (simp add: equal_range_def ub' L')
  also have "\<dots> = ?xs @ [(s, v)]"
    using lb' len by (simp add: Suc_diff_le)
  finally have e: "equal_range ?t' s = ?xs @ [(s, v)]" .
  have "equal_range ch s = drop ?lb (take ?u ?L)"
    by (simp add: equal_range_def drop_take)
  moreover have "?xs = drop (?lb' - ?lb) (drop ?lb (take ?u ?L))"
    using lb' by simp
  ultimately have "set ?xs \<subseteq> set (equal_range ch s)"
    by (metis set_drop_subset)
  then have "s \<notin> fst ` set ?xs" using assms by blast
  then show ?thesis using e len lb' by auto
qed

lemma child_insert:
  assumes "child (Node t ch) s = None"
  shows "child (Node t (multimap_insert (s, v) ch)) s = Some (upper_bound ch s, v)"
proof -
  have "s \<notin> fst ` set (equal_range ch s)"
    using assms by (simp add: child_def child_scan_None_iff)
  from equal_range_insert [OF this, of v] obtain xs where
    x: "equal_range (multimap_insert (s, v) ch) s = xs @ [(s, v)]" "s \<notin> fst ` set xs"
       "lower_bound (multimap_insert (s, v) ch) s + length xs = upper_bound ch s"
    by blast
  show ?thesis
    using x by (simp add: child_def child_scan_append)
qed

lemma set_second_insert:
  "set_second (upper_bound ch s) v (multimap_insert (s, v) ch) = multimap_insert (s, v) ch"
proof (rule set_second_same)
  have L': "inorder (multimap_insert (s, v) ch) =
            take (upper_bound ch s) (inorder ch) @ (s, v) # drop (upper_bound ch s) (inorder ch)"
    using inorder_ins [of "(s, v)" ch] by (simp add: multimap_insert_def)
  have u: "upper_bound ch s \<le> length (inorder ch)" by (rule upper_bound_le_length)
  show "upper_bound ch s < length (inorder (multimap_insert (s, v) ch))"
    using u by (simp add: L')
  show "snd (inorder (multimap_insert (s, v) ch) ! upper_bound ch s) = v"
    using u by (simp add: L' nth_append)
qed

lemma addPath_walk_idem: "addPath_walk segs (addPath_walk segs node) = addPath_walk segs node"
proof (induction segs arbitrary: node)
  case Nil
  show ?case by simp
next
  case (Cons s rest)
  obtain t ch where node: "node = Node t ch" by (cases node)
  show ?case
  proof (cases "child node s")
    case None
    let ?c = "addPath_walk rest (Node False Leaf)"
    have 1: "addPath_walk (s # rest) node = Node t (multimap_insert (s, ?c) ch)"
      using None node by simp
    have 2: "child (Node t (multimap_insert (s, ?c) ch)) s = Some (upper_bound ch s, ?c)"
      using None node by (simp add: child_insert)
    have 3: "addPath_walk (s # rest) (Node t (multimap_insert (s, ?c) ch)) =
             Node t (multimap_insert (s, ?c) ch)"
      by (simp add: 2 Cons.IH set_second_insert)
    show ?thesis
      by (simp only: 1 3)
  next
    case (Some ic)
    obtain i c where ic: "ic = (i, c)" by (cases ic)
    let ?c = "addPath_walk rest c"
    have 1: "addPath_walk (s # rest) node = Node t (set_second i ?c ch)"
      using Some ic node by simp
    have 2: "child (Node t (set_second i ?c ch)) s = Some (i, ?c)"
      using Some ic node by (simp add: child_set_second)
    have 3: "addPath_walk (s # rest) (Node t (set_second i ?c ch)) =
             Node t (set_second i ?c ch)"
      by (simp add: 2 Cons.IH)
    show ?thesis
      by (simp only: 1 3)
  qed
qed

text \<open>
  C9. Adding a pattern a second time changes nothing: the second \<open>addPath\<close> finds, at every
  level, the child that the first one found or inserted, and leaves the engine as it is. So
  every \<open>match\<close> has the same result after two calls as after one. (On an engine with no
  root both sequences stop at the same error.)
\<close>

theorem addPath_idempotent:
  "addPaths [p, p] pm = addPaths [p] pm \<and>
   map_sum id (\<lambda>pm'. match pm' q) (addPaths [p, p] pm) =
     map_sum id (\<lambda>pm'. match pm' q) (addPaths [p] pm)"
proof -
  have "addPaths [p, p] pm = addPaths [p] pm"
    by (cases "m_root pm") (simp_all add: addPath_def addPath_walk_idem)
  then show ?thesis by simp
qed

section \<open>Stored patterns and their prefixes\<close>

lemma wildcardMatch_loop_here:
  "s \<noteq> [] \<Longrightarrow> wildcardMatch s p \<Longrightarrow> wildcardMatch_loop s p"
  by (cases s) simp_all

lemma wildcardMatch_loop_later:
  "wildcardMatch_loop s p \<Longrightarrow> wildcardMatch_loop (x # s) p"
  by simp

lemma wildcardMatch_refl: "NUL \<notin> set s \<Longrightarrow> wildcardMatch s s"
proof (induction s)
  case Nil
  show ?case by simp
next
  case (Cons c s)
  then have ih: "wildcardMatch s s" by simp
  show ?case
  proof (cases "c = CHR ''*'' \<and> s \<noteq> []")
    case True
    have "wildcardMatch_loop s s" using True ih by (simp add: wildcardMatch_loop_here)
    then have "wildcardMatch_loop (c # s) s" by (rule wildcardMatch_loop_later)
    moreover have "deref s \<noteq> NUL" using True Cons.prems by (cases s) auto
    ultimately show ?thesis using True by simp
  next
    case False
    then show ?thesis using ih by auto
  qed
qed

lemma c_str_no_NUL: "NUL \<notin> set (c_str s)"
  by (auto simp: c_str_def dest: set_takeWhileD)

lemma wildcardMatch_same [simp]: "wildcardMatch (c_str s) (c_str s)"
  by (rule wildcardMatch_refl [OF c_str_no_NUL])

lemma child_Leaf [simp]: "child (Node t Leaf) s = None"
  by (simp add: child_def equal_range_def)

lemma childRange_single [simp]:
  "childRange (Node t (multimap_insert (s, c) Leaf)) s = [(s, c)]"
  by (simp add: childRange_def multimap_insert_def equal_range_def)

lemma matchWalk_single_pattern:
  "matchWalk (addPath_walk (qs @ rest) (Node False Leaf)) qs result =
     (if rest = [] then Match else DescendantMatch)"
proof (induction qs arbitrary: result)
  case Nil
  show ?case by (cases rest) simp_all
next
  case (Cons q qs)
  show ?case by (simp add: Cons.IH)
qed

lemma match_after_single:
  "match_after [p] q =
     Inr (matchWalk (addPath_walk (tokenize p) (Node False Leaf)) (tokenize q) NoMatch)"
  by (simp add: match_after_def addPath_def clear_def PathMatcher_new_def match_def)







text \<open>
  With several patterns the walk can also lose the prefix: of these eight patterns the
  first is \<open>/c/x\<close>, and \<open>match("/c")\<close> is \<open>NoMatch\<close>, because the equal range of \<open>c\<close>
  among the eight keys contains neither the key \<open>c\<close> nor the key \<open>*\<close>.
\<close>

lemma strict_prefix_lost:
  "match_after [''/c/x'', ''/*/x'', ''/*c/x'', ''/a/x'', ''/cc/x'', ''/*b/x'', ''/ba/x'', ''/bb/x'']
     ''/c'' = Inr NoMatch"
  by code_simp

section \<open>Candidates that the equal range misses\<close>

text \<open>
  C6. After \<open>addPath("/a")\<close> and \<open>addPath("/*")\<close> on a cleared engine, the pattern \<open>/*\<close>
  has one segment, which matches the one segment of \<open>/0\<close>, and \<open>match("/0")\<close> is
  \<open>NoMatch\<close>: the children of the root are \<open>a\<close>, \<open>*\<close> in this order, \<open>0\<close> is \<open>Less\<close>
  than \<open>a\<close>, and both bounds of the equal range of \<open>0\<close> are the position of \<open>a\<close>.
\<close>

theorem wildcard_sibling_missed:
  "tokenize ''/*'' = [''*''] \<and> tokenize ''/0'' = [''0''] \<and>
   wildcardMatch (c_str ''0'') (c_str ''*'') \<and>
   match_after [''/a'', ''/*''] ''/0'' = Inr NoMatch"
proof -
  have "match_after [''/a'', ''/*''] ''/0'' = Inr NoMatch"
    by code_simp
  then show ?thesis by (simp add: c_str_def NUL_def)
qed

text \<open>
  A single stored key that is \<open>Less\<close> than the query segment is outside the equal range
  as well, whatever it matches; this needs a \<open>*\<close> in the query.
\<close>

lemma wildcard_in_query_missed:
  "wildcardMatch (c_str ''*xb'') (c_str ''*b'') \<and> match_after [''/*b''] ''/*xb'' = Inr NoMatch"
proof -
  have "match_after [''/*b''] ''/*xb'' = Inr NoMatch"
    by code_simp
  then show ?thesis by (simp add: c_str_def NUL_def)
qed

text \<open>
  Where C6 does hold: on an engine that holds one pattern alone, every query with as many
  segments, none of them with a \<open>*\<close>, that matches the pattern segment by segment gets
  \<open>Match\<close>. A query segment without \<open>*\<close> that matches a key is equivalent to it under
  \<open>Less\<close>.
\<close>

lemma wildcardMatch_Less_skip:
  "CHR ''*'' \<notin> set s \<Longrightarrow> wildcardMatch s k \<Longrightarrow> Less_skip k s = (rk, rs) \<Longrightarrow>
   deref rk = CHR ''*'' \<or> deref rk = deref rs"
proof (induction k arbitrary: s rk rs)
  case Nil
  then show ?case by simp
next
  case (Cons x k)
  show ?case
  proof (cases s)
    case Nil
    then have "x = CHR ''*''" using Cons.prems(2) by (auto split: if_splits)
    moreover have "rk = x # k" using Cons.prems(3) Nil by simp
    ultimately show ?thesis by simp
  next
    case s: (Cons y s')
    show ?thesis
    proof (cases "x = y")
      case True
      then have "x \<noteq> CHR ''*''" using Cons.prems(1) s by auto
      then have "wildcardMatch s' k" using Cons.prems(2) True s by simp
      moreover have "Less_skip k s' = (rk, rs)" using Cons.prems(3) True s by simp
      moreover have "CHR ''*'' \<notin> set s'" using Cons.prems(1) s by simp
      ultimately show ?thesis using Cons.IH by blast
    next
      case False
      then have "x = CHR ''*''" using Cons.prems(2) s by (auto split: if_splits)
      moreover have "rk = x # k" using Cons.prems(3) False s by simp
      ultimately show ?thesis by simp
    qed
  qed
qed

lemma wildcardMatch_equivalent:
  assumes "CHR ''*'' \<notin> set (c_str q)" and "wildcardMatch (c_str q) (c_str key)"
  shows "\<not> Less key q \<and> \<not> Less q key"
proof -
  obtain rk rs where s: "Less_skip (c_str key) (c_str q) = (rk, rs)"
    by (cases "Less_skip (c_str key) (c_str q)")
  have d: "deref rk = CHR ''*'' \<or> deref rk = deref rs"
    by (rule wildcardMatch_Less_skip [OF assms s])
  have s': "Less_skip (c_str q) (c_str key) = (rs, rk)"
    by (rule Less_skip_sym [OF s])
  show ?thesis
    using d by (auto simp: Less_def s s' char_less_def)
qed

lemma childRange_single_equivalent:
  "\<not> Less key q \<Longrightarrow> \<not> Less q key \<Longrightarrow>
   childRange (Node t (multimap_insert (key, c) Leaf)) q = [(key, c)]"
  by (simp add: childRange_def multimap_insert_def equal_range_def)

lemma matchWalk_single_pattern_match:
  "list_all2 (\<lambda>q key. CHR ''*'' \<notin> set (c_str q) \<and> wildcardMatch (c_str q) (c_str key)) qs keys \<Longrightarrow>
   matchWalk (addPath_walk keys (Node False Leaf)) qs result = Match"
proof (induction qs keys arbitrary: result rule: list_all2_induct)
  case Nil
  show ?case by simp
next
  case (Cons q qs key keys)
  have e: "\<not> Less key q \<and> \<not> Less q key"
    using Cons.hyps(1) by (simp add: wildcardMatch_equivalent)
  show ?case
    using Cons.hyps(1) e by (simp add: childRange_single_equivalent Cons.IH)
qed

lemma single_pattern_match:
  "list_all2 (\<lambda>q key. CHR ''*'' \<notin> set (c_str q) \<and> wildcardMatch (c_str q) (c_str key))
     (tokenize path) (tokenize pattern) \<Longrightarrow>
   match_after [pattern] path = Inr Match"
  by (simp add: match_after_single matchWalk_single_pattern_match)

lemma single_pattern_exact: "match_after [p] p = Inr Match"
  using matchWalk_single_pattern [of "tokenize p" "[]"] by (simp add: match_after_single)

lemma single_pattern_wildcard: "match_after [''/a/*/c''] ''/a/xyz/c'' = Inr Match"
  by code_simp

text \<open>
  C10. After \<open>addPath("/*")\<close> and \<open>addPath("/a")\<close> on a cleared engine, \<open>match("/c")\<close> is
  \<open>Match\<close>. One more \<open>addPath("/b")\<close> makes it \<open>NoMatch\<close>: the three children are \<open>*\<close>,
  \<open>a\<close>, \<open>b\<close> in this order with \<open>a\<close> at the root of the tree, and the search for \<open>c\<close>
  goes to the right of \<open>a\<close> and of \<open>b\<close>, past the key \<open>*\<close>.
\<close>

theorem addPath_not_monotone:
  "match_after [''/*'', ''/a''] ''/c'' = Inr Match \<and>
   match_after [''/*'', ''/a'', ''/b''] ''/c'' = Inr NoMatch"
  by code_simp

end
